theory Spec2Isabelle
  imports Complex_Main "HOL-Library.Extended_Nat"
begin

section \<open>The line buffer of \<^verbatim>\<open>lib/csv/line-buffer.js\<close>\<close>

text \<open>
  The class \<^verbatim>\<open>LineBuffer\<close> is modelled by a record of its mutable fields, a record of
  the options read by its constructor, and one state transformer per method. What the
  object makes observable (the events given to \<^verbatim>\<open>emit\<close>, and the calls of the progress
  callback and of the callback of \<^verbatim>\<open>end\<close>) is appended to the field \<open>emitted\<close>, in
  the order in which the code performs it.

  Chunks and lines are \<open>string\<close>s. The transform is a pure function on lines, and the
  listeners of the events do not call back into the buffer. The method \<^verbatim>\<open>_flush\<close> is
  \<open>flush\<close>, the field \<^verbatim>\<open>_paused\<close> is \<open>paused\<close>, and \<^verbatim>\<open>end\<close> is \<open>end_call\<close>.
\<close>

subsection \<open>Delimiters and \<^verbatim>\<open>String.prototype.split\<close>\<close>

abbreviation LF :: char where "LF \<equiv> CHR 0x0A"
abbreviation CR :: char where "CR \<equiv> CHR 0x0D"

text \<open>
  The option \<^verbatim>\<open>lineDelimiter\<close>: the default pattern \<^verbatim>\<open>/\r?\n/\<close>, or a string given by
  the caller. The empty string is falsy, so that \<^verbatim>\<open>options.lineDelimiter || /\r?\n/\<close>
  replaces it by the default: a literal delimiter has a first character. Other patterns
  that a caller may give are not part of the model.
\<close>

datatype delimiter = EOL | Literal char string

text \<open>
  \<open>match_at d s\<close> is the length of the match of the delimiter that starts at the front
  of \<open>s\<close>, if there is one. For the default pattern the carriage return is optional and
  greedy: it is consumed only when a line feed follows it.
\<close>

fun match_at :: "delimiter \<Rightarrow> string \<Rightarrow> nat option" where
  "match_at EOL [] = None"
| "match_at EOL (c # r) =
     (if c = LF then Some 1
      else if c = CR then (case r of [] \<Rightarrow> None | c' # _ \<Rightarrow> if c' = LF then Some 2 else None)
      else None)"
| "match_at (Literal c cs) s =
     (if take (Suc (length cs)) s = c # cs then Some (Suc (length cs)) else None)"

text \<open>
  \<^verbatim>\<open>S.split(R)\<close>, as the language defines it: a position \<open>q\<close> runs over the text
  from the start \<open>p\<close> of the current piece; where the delimiter does not match at \<open>q\<close>
  the position moves on by one character, and where it matches the piece from \<open>p\<close> to
  \<open>q\<close> is pushed and both positions move to the end of the match. When \<open>q\<close> reaches the
  end of the text the piece from \<open>p\<close> is pushed. In \<open>split_from d piece s\<close> the
  \<open>piece\<close> is the text from \<open>p\<close> to \<open>q\<close> and \<open>s\<close> the text from \<open>q\<close> on.
\<close>

function split_from :: "delimiter \<Rightarrow> string \<Rightarrow> string \<Rightarrow> string list" where
  "split_from d piece [] = [piece]"
| "split_from d piece (c # r) =
     (case match_at d (c # r) of
        None \<Rightarrow> split_from d (piece @ [c]) r
      | Some n \<Rightarrow> piece # split_from d [] (drop n (c # r)))"
  by pat_completeness auto
termination
proof (relation "measure (\<lambda>(d, piece, s). length s)")
  fix d :: delimiter and piece :: string and c :: char and r :: string and n :: nat
  assume "match_at d (c # r) = Some n"
  then have "0 < n"
    by (cases d) (auto split: if_splits list.splits)
  then show "((d, [], drop n (c # r)), (d, piece, c # r)) \<in> measure (\<lambda>(d, piece, s). length s)"
    by simp
qed simp_all

definition split :: "delimiter \<Rightarrow> string \<Rightarrow> string list" where
  "split d s = split_from d [] s"

text \<open>The number of matches that \<open>split\<close> finds: the occurrences of the delimiter.\<close>

function occurrences :: "delimiter \<Rightarrow> string \<Rightarrow> nat" where
  "occurrences d [] = 0"
| "occurrences d (c # r) =
     (case match_at d (c # r) of
        None \<Rightarrow> occurrences d r
      | Some n \<Rightarrow> Suc (occurrences d (drop n (c # r))))"
  by pat_completeness auto
termination
proof (relation "measure (\<lambda>(d, s). length s)")
  fix d :: delimiter and c :: char and r :: string and n :: nat
  assume "match_at d (c # r) = Some n"
  then have "0 < n"
    by (cases d) (auto split: if_splits list.splits)
  then show "((d, drop n (c # r)), (d, c # r)) \<in> measure (\<lambda>(d, s). length s)"
    by simp
qed simp_all

subsection \<open>Options, state and events\<close>

text \<open>
  The options that the methods read. \<^verbatim>\<open>flushLineCount\<close> defaults to \<^verbatim>\<open>Infinity\<close>,
  hence the extended natural number. \<open>progressCallback\<close> says whether a callback was
  given; its calls are recorded as \<open>Progress\<close> events. The options \<^verbatim>\<open>encoding\<close>,
  \<^verbatim>\<open>maxLineCount\<close> and \<^verbatim>\<open>logging\<close> are stored by the constructor and read by no
  method that changes the state (a chunk that is a string is its own \<^verbatim>\<open>toString\<close>).
\<close>

record options =
  maxBufferSize :: nat
  flushLineCount :: enat
  transformFn :: "(string \<Rightarrow> string) option"
  progressCallback :: bool
  lineDelimiter :: delimiter

definition default_options :: options where
  "default_options =
     \<lparr>maxBufferSize = 1024 * 1024, flushLineCount = \<infinity>, transformFn = None,
      progressCallback = False, lineDelimiter = EOL\<rparr>"

text \<open>
  The constructor reads each option with \<^verbatim>\<open>options.name || default\<close>: an option that
  is missing or falsy (the number 0, the empty string) gets the default.
\<close>

record given_options =
  given_maxBufferSize :: "nat option"
  given_flushLineCount :: "nat option"
  given_transform :: "(string \<Rightarrow> string) option"
  given_progressCallback :: bool
  given_lineDelimiter :: "string option"

definition constructor_options :: "given_options \<Rightarrow> options" where
  "constructor_options given =
     \<lparr>maxBufferSize =
        (case given_maxBufferSize given of
           None \<Rightarrow> 1024 * 1024
         | Some n \<Rightarrow> if n = 0 then 1024 * 1024 else n),
      flushLineCount =
        (case given_flushLineCount given of
           None \<Rightarrow> \<infinity>
         | Some n \<Rightarrow> if n = 0 then \<infinity> else enat n),
      transformFn = given_transform given,
      progressCallback = given_progressCallback given,
      lineDelimiter =
        (case given_lineDelimiter given of
           None \<Rightarrow> EOL
         | Some [] \<Rightarrow> EOL
         | Some (c # cs) \<Rightarrow> Literal c cs)\<rparr>"

datatype event = Line string | Drain | Done | Error string | Progress nat | EndCallback

record line_buffer =
  buffer :: string
  queue :: "string list"
  lineCount :: nat
  corked :: bool
  paused :: bool
  emitted :: "event list"

text \<open>The state that the constructor leaves.\<close>

definition fresh :: line_buffer where
  "fresh = \<lparr>buffer = [], queue = [], lineCount = 0, corked = False, paused = False,
            emitted = []\<rparr>"

definition emit :: "event \<Rightarrow> line_buffer \<Rightarrow> line_buffer" where
  "emit e b = b\<lparr>emitted := emitted b @ [e]\<rparr>"

definition apply_transform :: "options \<Rightarrow> string \<Rightarrow> string" where
  "apply_transform opts line = (case transformFn opts of None \<Rightarrow> line | Some f \<Rightarrow> f line)"

subsection \<open>The methods\<close>

text \<open>\<^verbatim>\<open>_flush\<close>: guarded by \<^verbatim>\<open>!this.corked && this.queue.length > 0\<close>.\<close>

definition flush :: "options \<Rightarrow> line_buffer \<Rightarrow> line_buffer" where
  "flush opts b =
     (if \<not> corked b \<and> length (queue b) > 0
      then (fold (\<lambda>line. emit (Line (apply_transform opts line))) (queue b) b)\<lparr>queue := []\<rparr>
      else b)"

text \<open>The body of the \<^verbatim>\<open>forEach\<close> of \<^verbatim>\<open>write\<close>, for one complete line.\<close>

definition write_line :: "options \<Rightarrow> string \<Rightarrow> line_buffer \<Rightarrow> line_buffer" where
  "write_line opts line b =
     (if corked b then b\<lparr>queue := queue b @ [line]\<rparr>
      else
        let b1 = b\<lparr>lineCount := lineCount b + 1\<rparr>;
            b2 = emit (Line (apply_transform opts line)) b1;
            b3 = (if progressCallback opts then emit (Progress (lineCount b2)) b2 else b2)
        in if flushLineCount opts \<le> enat (lineCount b3) then flush opts b3 else b3)"

text \<open>\<^verbatim>\<open>write(chunk)\<close>, with its return value.\<close>

definition "write" :: "options \<Rightarrow> string \<Rightarrow> line_buffer \<Rightarrow> bool \<times> line_buffer" where
  "write opts chunk b =
     (if paused b then (False, b)
      else
        let lines = split (lineDelimiter opts) (buffer b @ chunk);
            b1 = b\<lparr>buffer := last lines\<rparr>;
            b2 = fold (write_line opts) (butlast lines) b1;
            b3 = (if length (buffer b2) > maxBufferSize opts then flush opts b2 else b2)
        in (\<not> corked b3, b3))"

definition cork :: "line_buffer \<Rightarrow> line_buffer" where
  "cork b = b\<lparr>corked := True\<rparr>"

definition uncork :: "options \<Rightarrow> line_buffer \<Rightarrow> line_buffer" where
  "uncork opts b = emit Drain (flush opts (b\<lparr>corked := False\<rparr>))"

text \<open>\<^verbatim>\<open>end(callback)\<close>; the argument says whether a callback was given.\<close>

definition end_call :: "bool \<Rightarrow> line_buffer \<Rightarrow> line_buffer" where
  "end_call callback b =
     (let b1 = (if buffer b \<noteq> [] then (emit (Line (buffer b)) b)\<lparr>buffer := []\<rparr> else b);
          b2 = emit Done b1
      in if callback then emit EndCallback b2 else b2)"

definition pause :: "line_buffer \<Rightarrow> line_buffer" where
  "pause b = b\<lparr>paused := True\<rparr>"

definition resume :: "options \<Rightarrow> line_buffer \<Rightarrow> line_buffer" where
  "resume opts b =
     (let b1 = b\<lparr>paused := False\<rparr>;
          b2 = (if buffer b1 \<noteq> [] then snd (write opts (buffer b1) b1) else b1)
      in flush opts b2)"

definition emitError :: "string \<Rightarrow> line_buffer \<Rightarrow> line_buffer" where
  "emitError errorMessage b = emit (Error errorMessage) b"

text \<open>Writing a sequence of chunks, one call of \<^verbatim>\<open>write\<close> for each.\<close>

definition writes :: "options \<Rightarrow> string list \<Rightarrow> line_buffer \<Rightarrow> line_buffer" where
  "writes opts chunks b = fold (\<lambda>chunk b. snd (write opts chunk b)) chunks b"

section \<open>The reader of \<^verbatim>\<open>lib/csv/csv.js\<close>\<close>

subsection \<open>Values\<close>

text \<open>
  A JavaScript number is one of the three special values or a finite value, kept here as
  the exact rational that the literal denotes. A \<^verbatim>\<open>Date\<close> is its time value, the
  milliseconds since the epoch.
\<close>

datatype number = NaN | PosInfinity | NegInfinity | Finite rat

datatype scalar =
    Null
  | Num number
  | DateValue int
  | Boolean bool
  | ErrorValue string
  | Text string
  | ObjectMember string

text \<open>
  The table \<^verbatim>\<open>SpecialValues\<close>. The code reads it with \<^verbatim>\<open>SpecialValues[datum]\<close>, which
  also finds what the object literal inherits from \<^verbatim>\<open>Object.prototype\<close>; such a member
  is kept as \<open>ObjectMember\<close> with its name.
\<close>

definition SpecialValues_own :: "(string \<times> scalar) list" where
  "SpecialValues_own =
     [(''true'', Boolean True),
      (''false'', Boolean False),
      (''#N/A'', ErrorValue ''#N/A''),
      (''#REF!'', ErrorValue ''#REF!''),
      (''#NAME?'', ErrorValue ''#NAME?''),
      (''#DIV/0!'', ErrorValue ''#DIV/0!''),
      (''#NULL!'', ErrorValue ''#NULL!''),
      (''#VALUE!'', ErrorValue ''#VALUE!''),
      (''#NUM!'', ErrorValue ''#NUM!'')]"

definition Object_prototype :: "string list" where
  "Object_prototype =
     [''constructor'', ''hasOwnProperty'', ''isPrototypeOf'', ''propertyIsEnumerable'',
      ''toLocaleString'', ''toString'', ''valueOf'', ''__proto__'', ''__defineGetter__'',
      ''__defineSetter__'', ''__lookupGetter__'', ''__lookupSetter__'']"

definition SpecialValues :: "string \<Rightarrow> scalar option" where
  "SpecialValues datum =
     (case map_of SpecialValues_own datum of
        Some special \<Rightarrow> Some special
      | None \<Rightarrow> if datum \<in> set Object_prototype then Some (ObjectMember datum) else None)"

subsection \<open>\<^verbatim>\<open>defaultMap\<close>\<close>

text \<open>
  \<^verbatim>\<open>defaultMap(dateFormats)\<close> uses two functions that are not part of the repository:
  the built-in \<^verbatim>\<open>Number\<close> and the strict parse \<^verbatim>\<open>dayjs(datum, format, true)\<close>. They
  are parameters of the model: \<open>toNumber datum\<close> is the value of \<^verbatim>\<open>Number(datum)\<close>, and
  \<open>dayjs datum format\<close> is the time value of the parse when \<^verbatim>\<open>isValid()\<close> holds and
  \<open>None\<close> when it does not. The \<^verbatim>\<open>reduce\<close> over the formats keeps the first valid
  parse.
\<close>

definition first_valid ::
  "(string \<Rightarrow> string \<Rightarrow> int option) \<Rightarrow> string \<Rightarrow> string list \<Rightarrow> int option" where
  "first_valid dayjs datum dateFormats =
     fold (\<lambda>currentDateFormat matchingDate.
             case matchingDate of
               Some d \<Rightarrow> Some d
             | None \<Rightarrow> dayjs datum currentDateFormat)
          dateFormats None"

definition defaultMap ::
  "(string \<Rightarrow> number) \<Rightarrow> (string \<Rightarrow> string \<Rightarrow> int option) \<Rightarrow> string list \<Rightarrow> string \<Rightarrow> scalar" where
  "defaultMap toNumber dayjs dateFormats datum =
     (if datum = [] then Null
      else
        let datumNumber = toNumber datum in
        if datumNumber \<noteq> NaN \<and> datumNumber \<noteq> PosInfinity then Num datumNumber
        else
          case first_valid dayjs datum dateFormats of
            Some dt \<Rightarrow> DateValue dt
          | None \<Rightarrow>
              (case SpecialValues datum of
                 Some special \<Rightarrow> special
               | None \<Rightarrow> Text datum))"

text \<open>The date formats that \<^verbatim>\<open>read\<close> uses when the options give none.\<close>

definition default_dateFormats :: "string list" where
  "default_dateFormats =
     [''YYYY-MM-DD[T]HH:mm:ssZ'', ''YYYY-MM-DD[T]HH:mm:ss'', ''MM-DD-YYYY'', ''YYYY-MM-DD'']"

subsection \<open>\<^verbatim>\<open>read\<close> and \<^verbatim>\<open>readFile\<close>\<close>

text \<open>
  The parser of \<^verbatim>\<open>fast-csv\<close> is seen through the events it gives to its listeners:
  a record, the end of the input, or an error. A promise settles once, at the first
  \<open>End\<close> or \<open>Failure\<close>; when the events stop before that it never settles, which is
  \<open>None\<close>.
\<close>

datatype parser_event = Data "string list" | End | Failure string

type_synonym worksheets = "string option \<Rightarrow> scalar list list option"

fun read_events ::
  "(string \<Rightarrow> scalar) \<Rightarrow> string option \<Rightarrow> parser_event list \<Rightarrow> worksheets \<Rightarrow> (string + worksheets) option"
where
  "read_events mapper sheetName [] worksheets = None"
| "read_events mapper sheetName (Data data # events) worksheets =
     read_events mapper sheetName events
       (let worksheets' =
              (if worksheets sheetName = None then worksheets(sheetName \<mapsto> []) else worksheets)
        in worksheets'(sheetName \<mapsto> the (worksheets' sheetName) @ [map mapper data]))"
| "read_events mapper sheetName (End # events) worksheets = Some (Inr worksheets)"
| "read_events mapper sheetName (Failure e # events) worksheets = Some (Inl e)"

definition read ::
  "(string \<Rightarrow> scalar) \<Rightarrow> string option \<Rightarrow> parser_event list \<Rightarrow> (string + worksheets) option" where
  "read mapper sheetName events = read_events mapper sheetName events Map.empty"

text \<open>
  \<^verbatim>\<open>readFile\<close>. The file system is the predicate \<open>exists\<close> and, for each file, the
  events that the parser gives when the stream of the file is piped into it. What the
  method does to the stream is recorded in order. An \<^verbatim>\<open>await\<close> of a promise that
  rejects throws, and the statements after it are not run.
\<close>

datatype error = FileNotFound string | Rejected string

datatype stream_op = CreateReadStream string | StreamClose string

definition readFile ::
  "(string \<Rightarrow> bool) \<Rightarrow> (string \<Rightarrow> parser_event list) \<Rightarrow> (string \<Rightarrow> scalar) \<Rightarrow> string option \<Rightarrow> string
     \<Rightarrow> (error + worksheets) option \<times> stream_op list" where
  "readFile exists parse mapper sheetName filename =
     (if \<not> exists filename then (Some (Inl (FileNotFound filename)), [])
      else
        case read mapper sheetName (parse filename) of
          None \<Rightarrow> (None, [CreateReadStream filename])
        | Some (Inl e) \<Rightarrow> (Some (Inl (Rejected e)), [CreateReadStream filename])
        | Some (Inr worksheets) \<Rightarrow>
            (Some (Inr worksheets), [CreateReadStream filename, StreamClose filename]))"

subsection \<open>\<^verbatim>\<open>streamFile\<close>\<close>

text \<open>
  The state of \<^verbatim>\<open>streamFile\<close> is the array \<^verbatim>\<open>rows\<close> and the batches that
  \<^verbatim>\<open>processBatch\<close> has been called with, each as the array was at the call.
  The method is called with an options object; the batch size is the constant of the code.
\<close>

definition batchSize :: nat where
  "batchSize = 1000"

definition on_data ::
  "string list \<Rightarrow> string list list \<times> string list list list \<Rightarrow> string list list \<times> string list list list" where
  "on_data row st =
     (let rows = fst st @ [row]
      in if batchSize \<le> length rows then ([], snd st @ [rows]) else (rows, snd st))"

fun stream_events ::
  "parser_event list \<Rightarrow> string list list \<times> string list list list
     \<Rightarrow> (string + unit) option \<times> string list list list" where
  "stream_events [] st = (None, snd st)"
| "stream_events (Data row # events) st = stream_events events (on_data row st)"
| "stream_events (End # events) st =
     (Some (Inr ()), if length (fst st) \<noteq> 0 then snd st @ [fst st] else snd st)"
| "stream_events (Failure e # events) st = (Some (Inl e), snd st)"

definition streamFile :: "parser_event list \<Rightarrow> (string + unit) option \<times> string list list list" where
  "streamFile events = stream_events events ([], [])"

text \<open>The events of a source that produces the given rows and then ends.\<close>

definition source :: "string list list \<Rightarrow> parser_event list" where
  "source rows = map Data rows @ [End]"

section \<open>Reference readings of \<^verbatim>\<open>Number\<close> and of the strict parse\<close>

text \<open>
  The theorems about \<open>defaultMap\<close> hold for every \<open>toNumber\<close> and \<open>dayjs\<close>. The two
  functions of this section are readings of the language standard and of the library,
  used where a theorem is evaluated on a concrete token.
\<close>

subsection \<open>\<^verbatim>\<open>Number\<close> applied to a string\<close>

definition is_digit :: "char \<Rightarrow> bool" where
  "is_digit c = (48 \<le> (of_char c :: nat) \<and> (of_char c :: nat) \<le> 57)"

definition digits_value :: "string \<Rightarrow> nat" where
  "digits_value ds = fold (\<lambda>c n. 10 * n + ((of_char c :: nat) - 48)) ds 0"

definition is_space :: "char \<Rightarrow> bool" where
  "is_space c = (c \<in> set [CHR 0x09, CHR 0x0A, CHR 0x0B, CHR 0x0C, CHR 0x0D, CHR 0x20, CHR 0xA0])"

definition trim :: "string \<Rightarrow> string" where
  "trim s = rev (dropWhile is_space (rev (dropWhile is_space s)))"

text \<open>The exponent part of a decimal literal; the empty text is the exponent \<open>0\<close>.\<close>

definition exponent_part :: "string \<Rightarrow> int option" where
  "exponent_part s =
     (case s of
        [] \<Rightarrow> Some 0
      | c # r \<Rightarrow>
          if c = CHR ''e'' \<or> c = CHR ''E'' then
            (let negative = (take 1 r = ''-'');
                 ds = (if take 1 r = ''-'' \<or> take 1 r = ''+'' then drop 1 r else r)
             in if ds \<noteq> [] \<and> list_all is_digit ds
                then Some (if negative then - int (digits_value ds) else int (digits_value ds))
                else None)
          else None)"

text \<open>
  An unsigned decimal literal: digits, an optional fraction and an optional exponent,
  with a digit before or after the point.
\<close>

definition unsigned_decimal :: "string \<Rightarrow> rat option" where
  "unsigned_decimal s =
     (let ip = takeWhile is_digit s;
          r1 = dropWhile is_digit s;
          fp = (if take 1 r1 = ''.'' then takeWhile is_digit (drop 1 r1) else []);
          r2 = (if take 1 r1 = ''.'' then dropWhile is_digit (drop 1 r1) else r1)
      in if ip = [] \<and> fp = [] then None
         else
           case exponent_part r2 of
             None \<Rightarrow> None
           | Some e \<Rightarrow>
               Some (of_nat (digits_value (ip @ fp)) / 10 ^ length fp
                       * (if 0 \<le> e then 10 ^ nat e else 1 / 10 ^ nat (- e))))"

text \<open>
  A value is read to the nearest double; from \<open>2 ^ 1024 - 2 ^ 970\<close> on that is an
  infinity. The rounding of the finite values is left out.
\<close>

definition round_number :: "rat \<Rightarrow> number" where
  "round_number q =
     (if 2 ^ 1024 - 2 ^ 970 \<le> q then PosInfinity
      else if q \<le> - (2 ^ 1024 - 2 ^ 970) then NegInfinity
      else Finite q)"

text \<open>Literals with a radix prefix have no sign.\<close>

definition radix_digit :: "nat \<Rightarrow> char \<Rightarrow> nat option" where
  "radix_digit base c =
     (let n = (of_char c :: nat);
          v = (if 48 \<le> n \<and> n \<le> 57 then n - 48
               else if 97 \<le> n \<and> n \<le> 102 then n - 87
               else if 65 \<le> n \<and> n \<le> 70 then n - 55
               else 16)
      in if v < base then Some v else None)"

definition radix_literal :: "string \<Rightarrow> nat option" where
  "radix_literal s =
     (let base = (if take 2 s = ''0x'' \<or> take 2 s = ''0X'' then 16
                  else if take 2 s = ''0o'' \<or> take 2 s = ''0O'' then 8
                  else if take 2 s = ''0b'' \<or> take 2 s = ''0B'' then 2
                  else 0);
          ds = drop 2 s
      in if base = 0 \<or> ds = [] \<or> \<not> list_all (\<lambda>c. radix_digit base c \<noteq> None) ds then None
         else Some (fold (\<lambda>c n. base * n + the (radix_digit base c)) ds 0))"

definition js_Number :: "string \<Rightarrow> number" where
  "js_Number datum =
     (let s = trim datum in
      if s = [] then Finite 0
      else
        case radix_literal s of
          Some n \<Rightarrow> round_number (of_nat n)
        | None \<Rightarrow>
            (let negative = (take 1 s = ''-'');
                 u = (if take 1 s = ''-'' \<or> take 1 s = ''+'' then drop 1 s else s)
             in if u = ''Infinity'' then (if negative then NegInfinity else PosInfinity)
                else
                  case unsigned_decimal u of
                    None \<Rightarrow> NaN
                  | Some q \<Rightarrow> round_number (if negative then - q else q)))"

subsection \<open>\<^verbatim>\<open>dayjs(datum, format, true)\<close>\<close>

text \<open>
  The strict parse accepts a text when formatting the parsed date gives the text back.
  For the tokens of the default formats this is: each field has its fixed number of
  digits, the other characters of the format stand in the text as they are, the fields
  are in range, and a zone offset is the offset of the local zone. \<open>utcOffset\<close> is the
  offset of the local zone in minutes.
\<close>

datatype format_token = YYYY | MM | DD | HH | Minutes | Seconds | Zone | Verbatim string

fun format_tokens :: "string \<Rightarrow> format_token list"
  and bracketed :: "string \<Rightarrow> string \<Rightarrow> format_token list" where
  "format_tokens [] = []"
| "format_tokens (c # r) =
     (if c = CHR ''['' then bracketed [] r
      else if take 4 (c # r) = ''YYYY'' then YYYY # format_tokens (drop 3 r)
      else if take 2 (c # r) = ''MM'' then MM # format_tokens (drop 1 r)
      else if take 2 (c # r) = ''DD'' then DD # format_tokens (drop 1 r)
      else if take 2 (c # r) = ''HH'' then HH # format_tokens (drop 1 r)
      else if take 2 (c # r) = ''mm'' then Minutes # format_tokens (drop 1 r)
      else if take 2 (c # r) = ''ss'' then Seconds # format_tokens (drop 1 r)
      else if c = CHR ''Z'' then Zone # format_tokens r
      else Verbatim [c] # format_tokens r)"
| "bracketed text [] = [Verbatim text]"
| "bracketed text (c # r) =
     (if c = CHR '']'' then Verbatim text # format_tokens r else bracketed (text @ [c]) r)"

record date_fields =
  year :: nat
  month :: nat
  day :: nat
  hours :: nat
  minutes :: nat
  seconds :: nat
  zone :: "int option"

definition read_digits :: "nat \<Rightarrow> string \<Rightarrow> (nat \<times> string) option" where
  "read_digits n s =
     (if length (take n s) = n \<and> list_all is_digit (take n s)
      then Some (digits_value (take n s), drop n s)
      else None)"

definition read_zone :: "string \<Rightarrow> (int \<times> string) option" where
  "read_zone s =
     (if (take 1 s = ''+'' \<or> take 1 s = ''-'') \<and> take 1 (drop 3 s) = '':'' then
        (case (read_digits 2 (drop 1 s), read_digits 2 (drop 4 s)) of
           (Some (h, _), Some (m, rest)) \<Rightarrow>
             Some ((if take 1 s = ''-'' then - 1 else 1) * int (60 * h + m), rest)
         | _ \<Rightarrow> None)
      else None)"

fun read_fields :: "format_token list \<Rightarrow> string \<Rightarrow> date_fields \<Rightarrow> date_fields option" where
  "read_fields [] s f = (if s = [] then Some f else None)"
| "read_fields (YYYY # ts) s f =
     (case read_digits 4 s of None \<Rightarrow> None | Some (n, r) \<Rightarrow> read_fields ts r (f\<lparr>year := n\<rparr>))"
| "read_fields (MM # ts) s f =
     (case read_digits 2 s of None \<Rightarrow> None | Some (n, r) \<Rightarrow> read_fields ts r (f\<lparr>month := n\<rparr>))"
| "read_fields (DD # ts) s f =
     (case read_digits 2 s of None \<Rightarrow> None | Some (n, r) \<Rightarrow> read_fields ts r (f\<lparr>day := n\<rparr>))"
| "read_fields (HH # ts) s f =
     (case read_digits 2 s of None \<Rightarrow> None | Some (n, r) \<Rightarrow> read_fields ts r (f\<lparr>hours := n\<rparr>))"
| "read_fields (Minutes # ts) s f =
     (case read_digits 2 s of None \<Rightarrow> None | Some (n, r) \<Rightarrow> read_fields ts r (f\<lparr>minutes := n\<rparr>))"
| "read_fields (Seconds # ts) s f =
     (case read_digits 2 s of None \<Rightarrow> None | Some (n, r) \<Rightarrow> read_fields ts r (f\<lparr>seconds := n\<rparr>))"
| "read_fields (Zone # ts) s f =
     (case read_zone s of None \<Rightarrow> None | Some (z, r) \<Rightarrow> read_fields ts r (f\<lparr>zone := Some z\<rparr>))"
| "read_fields (Verbatim text # ts) s f =
     (if take (length text) s = text then read_fields ts (drop (length text) s) f else None)"

definition leap_year :: "nat \<Rightarrow> bool" where
  "leap_year y = (y mod 4 = 0 \<and> (y mod 100 \<noteq> 0 \<or> y mod 400 = 0))"

definition days_in_month :: "nat \<Rightarrow> nat \<Rightarrow> nat" where
  "days_in_month y m =
     (if m = 2 then (if leap_year y then 29 else 28)
      else if m \<in> set [4, 6, 9, 11] then 30
      else 31)"

text \<open>The days from 1 January 1970 to a date of the civil calendar.\<close>

definition days_from_civil :: "nat \<Rightarrow> nat \<Rightarrow> nat \<Rightarrow> int" where
  "days_from_civil y m d =
     (let y' = (if m \<le> 2 then int y - 1 else int y);
          era = y' div 400;
          yoe = y' mod 400;
          doy = (153 * (if 2 < m then int m - 3 else int m + 9) + 2) div 5 + int d - 1;
          doe = yoe * 365 + yoe div 4 - yoe div 100 + doy
      in era * 146097 + doe - 719468)"

definition dayjs_strict :: "int \<Rightarrow> string \<Rightarrow> string \<Rightarrow> int option" where
  "dayjs_strict utcOffset datum format =
     (case read_fields (format_tokens format) datum
             \<lparr>year = 1970, month = 1, day = 1, hours = 0, minutes = 0, seconds = 0, zone = None\<rparr> of
        None \<Rightarrow> None
      | Some f \<Rightarrow>
          if 100 \<le> year f \<and> 1 \<le> month f \<and> month f \<le> 12 \<and> 1 \<le> day f
             \<and> day f \<le> days_in_month (year f) (month f)
             \<and> hours f \<le> 23 \<and> minutes f \<le> 59 \<and> seconds f \<le> 59
             \<and> (zone f = None \<or> zone f = Some utcOffset)
          then Some ((((days_from_civil (year f) (month f) (day f) * 24 + int (hours f)) * 60
                         + int (minutes f)) * 60 + int (seconds f)) * 1000
                     - utcOffset * 60000)
          else None)"

section \<open>Facts about delimiters and splitting\<close>

text \<open>A match is not empty and lies inside the text.\<close>

lemma match_at_bounds: "match_at d s = Some n \<Longrightarrow> 0 < n \<and> n \<le> length s"
proof (cases d)
  case EOL
  assume "match_at d s = Some n"
  with EOL show ?thesis
    by (cases s) (auto split: if_splits list.splits)
next
  case (Literal c cs)
  assume m: "match_at d s = Some n"
  with Literal have t: "take (Suc (length cs)) s = c # cs" and n: "n = Suc (length cs)"
    by (auto split: if_splits)
  from t have "length (take (Suc (length cs)) s) = Suc (length cs)" by simp
  then have "Suc (length cs) \<le> length s" by simp
  with n show ?thesis by simp
qed

text \<open>More text after a match does not change it.\<close>

lemma match_at_append: "match_at d s = Some n \<Longrightarrow> match_at d (s @ b) = Some n"
proof (cases d)
  case EOL
  assume "match_at d s = Some n"
  with EOL show ?thesis
    by (cases s) (auto split: if_splits list.splits)
next
  case (Literal c cs)
  assume m: "match_at d s = Some n"
  with Literal have t: "take (Suc (length cs)) s = c # cs" and n: "n = Suc (length cs)"
    by (auto split: if_splits)
  from match_at_bounds[OF m] n have "Suc (length cs) \<le> length s" by simp
  then have "take (Suc (length cs)) (s @ b) = take (Suc (length cs)) s" by simp
  with t n Literal show ?thesis by simp
qed

text \<open>
  A match that appears only when more text is appended crosses the boundary, and then no
  match starts further to the right in the first text.
\<close>

lemma match_at_late:
  assumes "match_at d s = None" and "match_at d (s @ b) = Some n" and "s = u @ t"
  shows "length s < n \<and> match_at d t = None"
proof (cases d)
  case EOL
  show ?thesis
  proof (cases s)
    case Nil
    with assms EOL show ?thesis using match_at_bounds[OF assms(2)] by simp
  next
    case (Cons c r)
    with assms(1,2) EOL have "c = CR \<and> r = [] \<and> n = 2"
      by (cases r) (auto split: if_splits list.splits)
    with Cons assms(3) EOL show ?thesis
      by (cases u) (auto)
  qed
next
  case (Literal c cs)
  from assms(2) Literal have n: "n = Suc (length cs)"
    by (auto split: if_splits)
  have len: "length s < n"
  proof (rule ccontr)
    assume "\<not> length s < n"
    with n have "Suc (length cs) \<le> length s" by simp
    then have "take (Suc (length cs)) (s @ b) = take (Suc (length cs)) s" by simp
    with assms(1,2) Literal show False by (auto split: if_splits)
  qed
  have "match_at d t = None"
  proof (cases "match_at d t")
    case None then show ?thesis .
  next
    case (Some m)
    with Literal have "m = Suc (length cs)" by (auto split: if_splits)
    moreover from match_at_bounds[OF Some] have "m \<le> length t" by simp
    moreover from assms(3) have "length t \<le> length s" by simp
    ultimately show ?thesis using len n by simp
  qed
  with len show ?thesis by simp
qed

text \<open>The piece carried along by \<open>split_from\<close> is a prefix of the first piece.\<close>

lemma split_from_piece:
  "split_from d piece s = (piece @ hd (split_from d [] s)) # tl (split_from d [] s)"
proof (induction s arbitrary: piece rule: length_induct)
  case (1 s)
  show ?case
  proof (cases s)
    case Nil
    then show ?thesis by simp
  next
    case (Cons c r)
    show ?thesis
    proof (cases "match_at d (c # r)")
      case None
      have r: "length r < length s" using Cons by simp
      from 1 r have a: "split_from d (piece @ [c]) r = ((piece @ [c]) @ hd (split_from d [] r)) # tl (split_from d [] r)"
        by blast
      from 1 r have b: "split_from d [c] r = ([c] @ hd (split_from d [] r)) # tl (split_from d [] r)"
        by blast
      from Cons None a b show ?thesis by simp
    next
      case (Some n)
      with Cons show ?thesis by simp
    qed
  qed
qed

lemma split_Nil: "split d [] = [[]]"
  by (simp add: split_def)

lemma split_match: "match_at d (c # r) = Some n \<Longrightarrow> split d (c # r) = [] # split d (drop n (c # r))"
  by (simp add: split_def)

lemma split_step:
  "match_at d (c # r) = None \<Longrightarrow> split d (c # r) = (c # hd (split d r)) # tl (split d r)"
  using split_from_piece[of d "[c]" r] by (simp add: split_def)

text \<open>\<open>split\<close> gives at least one piece, so that \<^verbatim>\<open>lines.pop()\<close> is its last piece.\<close>

lemma split_not_Nil: "split d s \<noteq> []"
proof (cases s)
  case Nil then show ?thesis by (simp add: split_Nil)
next
  case (Cons c r)
  then show ?thesis
    by (cases "match_at d (c # r)") (simp_all add: split_match split_step)
qed

lemma split_no_match:
  "(\<And>u t. s = u @ t \<Longrightarrow> match_at d t = None) \<Longrightarrow> split d s = [s]"
proof (induction s)
  case Nil
  then show ?case by (simp add: split_Nil)
next
  case (Cons c r)
  have "match_at d (c # r) = None" using Cons.prems[of "[]" "c # r"] by simp
  moreover have "split d r = [r]"
  proof (rule Cons.IH)
    fix u t assume "r = u @ t"
    then have "c # r = (c # u) @ t" by simp
    then show "match_at d t = None" by (rule Cons.prems)
  qed
  ultimately show ?case by (simp add: split_step)
qed

lemma split_single: "split d s = [x] \<Longrightarrow> x = s"
proof (induction s arbitrary: x)
  case Nil
  then show ?case by (simp add: split_Nil)
next
  case (Cons c r)
  show ?case
  proof (cases "match_at d (c # r)")
    case (Some n)
    with Cons.prems split_not_Nil[of d "drop n (c # r)"] show ?thesis
      by (simp add: split_match)
  next
    case None
    with Cons.prems have x: "x = c # hd (split d r)" and "tl (split d r) = []"
      by (simp_all add: split_step)
    with split_not_Nil[of d r] have "split d r = [hd (split d r)]"
      by (cases "split d r") simp_all
    then have "hd (split d r) = r" by (rule Cons.IH)
    with x show ?thesis by simp
  qed
qed

lemma length_split: "length (split d s) = Suc (occurrences d s)"
proof (induction s rule: length_induct)
  case (1 s)
  show ?case
  proof (cases s)
    case Nil then show ?thesis by (simp add: split_Nil)
  next
    case (Cons c r)
    show ?thesis
    proof (cases "match_at d (c # r)")
      case None
      from 1 Cons have "length (split d r) = Suc (occurrences d r)" by simp
      moreover have "split d r \<noteq> []" by (rule split_not_Nil)
      ultimately show ?thesis using Cons None by (simp add: split_step)
    next
      case (Some n)
      from match_at_bounds[OF Some] have "length (drop n (c # r)) < length s"
        using Cons by simp
      with 1 have "length (split d (drop n (c # r))) = Suc (occurrences d (drop n (c # r)))"
        by blast
      with Cons Some show ?thesis by (simp add: split_match)
    qed
  qed
qed

lemma split_no_occurrence: "occurrences d s = 0 \<Longrightarrow> split d s = [s]"
proof -
  assume "occurrences d s = 0"
  then have "length (split d s) = 1" by (simp add: length_split)
  then obtain x where x: "split d s = [x]"
    by (cases "split d s") simp_all
  then have "x = s" by (rule split_single)
  with x show ?thesis by simp
qed

text \<open>
  Splitting commutes with buffering: the pieces of a text and of more text after it are
  the complete pieces of the first text, followed by the pieces of its last piece with
  the rest.
\<close>

lemma split_append:
  "split d (a @ b) = butlast (split d a) @ split d (last (split d a) @ b)"
proof (induction a rule: length_induct)
  case (1 a)
  show ?case
  proof (cases a)
    case Nil then show ?thesis by (simp add: split_Nil)
  next
    case (Cons c r)
    show ?thesis
    proof (cases "match_at d (c # r)")
      case (Some n)
      from match_at_bounds[OF Some] have n: "0 < n" "n \<le> length (c # r)" by simp_all
      then have "length (drop n (c # r)) < length a" using Cons by simp
      with 1 have IH: "split d (drop n (c # r) @ b) =
          butlast (split d (drop n (c # r))) @ split d (last (split d (drop n (c # r))) @ b)"
        by blast
      from match_at_append[OF Some] have "match_at d (c # (r @ b)) = Some n" by simp
      then have "split d (c # (r @ b)) = [] # split d (drop n (c # (r @ b)))"
        by (rule split_match)
      moreover have "drop n (c # (r @ b)) = drop n (c # r) @ b" using n by (cases n) simp_all
      ultimately have "split d (a @ b) = [] # split d (drop n (c # r) @ b)" using Cons by simp
      moreover have "split d a = [] # split d (drop n (c # r))"
        using Cons Some by (simp add: split_match)
      ultimately show ?thesis using IH split_not_Nil[of d "drop n (c # r)"] by simp
    next
      case None
      show ?thesis
      proof (cases "match_at d (c # (r @ b))")
        case (Some n)
        have late: "\<And>u t. c # r = u @ t \<Longrightarrow> match_at d t = None"
        proof -
          fix u t assume ut: "c # r = u @ t"
          have "match_at d ((c # r) @ b) = Some n" using Some by simp
          from match_at_late[OF None this ut] show "match_at d t = None" by simp
        qed
        then have "split d (c # r) = [c # r]" by (rule split_no_match)
        with Cons show ?thesis by simp
      next
        case None2: None
        have "length r < length a" using Cons by simp
        with 1 have IH: "split d (r @ b) = butlast (split d r) @ split d (last (split d r) @ b)"
          by blast
        have L: "split d (a @ b) = (c # hd (split d (r @ b))) # tl (split d (r @ b))"
          using Cons None2 by (simp add: split_step)
        have A: "split d a = (c # hd (split d r)) # tl (split d r)"
          using Cons None by (simp add: split_step)
        show ?thesis
        proof (cases "tl (split d r) = []")
          case True
          with A have "split d a = [c # hd (split d r)]" by simp
          then have "split d a = [a]" by (metis split_single)
          then show ?thesis by simp
        next
          case False
          then obtain p q ps where sr: "split d r = p # q # ps"
            by (cases "split d r"; cases "tl (split d r)") auto
          with IH have "split d (r @ b) = p # (butlast (q # ps) @ split d (last (q # ps) @ b))"
            by simp
          with L A sr show ?thesis by simp
        qed
      qed
    qed
  qed
qed

lemma split_append_last:
  "last (split d (a @ b)) = last (split d (last (split d a) @ b))"
  by (subst split_append) (simp add: split_not_Nil)

lemma split_append_butlast:
  "butlast (split d (a @ b)) = butlast (split d a) @ butlast (split d (last (split d a) @ b))"
  by (subst split_append) (simp add: split_not_Nil butlast_append)

text \<open>The last piece holds no delimiter.\<close>

lemma split_last_piece: "split d (last (split d s)) = [last (split d s)]"
proof (induction s rule: length_induct)
  case (1 s)
  show ?case
  proof (cases s)
    case Nil then show ?thesis by (simp add: split_Nil)
  next
    case (Cons c r)
    show ?thesis
    proof (cases "match_at d (c # r)")
      case (Some n)
      from match_at_bounds[OF Some] have "length (drop n (c # r)) < length s"
        using Cons by simp
      with 1 have "split d (last (split d (drop n (c # r)))) = [last (split d (drop n (c # r)))]"
        by blast
      with Cons Some show ?thesis by (simp add: split_match split_not_Nil)
    next
      case None
      then have A: "split d s = (c # hd (split d r)) # tl (split d r)"
        using Cons by (simp add: split_step)
      show ?thesis
      proof (cases "tl (split d r) = []")
        case True
        with A have "split d s = [c # hd (split d r)]" by simp
        then have "split d s = [s]" by (metis split_single)
        then show ?thesis by simp
      next
        case False
        with A have "last (split d s) = last (split d r)"
          by (simp add: last_tl split_not_Nil)
        moreover from 1 Cons have "split d (last (split d r)) = [last (split d r)]" by simp
        ultimately show ?thesis by simp
      qed
    qed
  qed
qed

text \<open>Each match of the default pattern ends in its one line feed.\<close>

lemma occurrences_EOL: "occurrences EOL s = length (filter (\<lambda>c. c = LF) s)"
proof (induction s rule: length_induct)
  case (1 s)
  show ?case
  proof (cases s)
    case Nil then show ?thesis by simp
  next
    case (Cons c r)
    show ?thesis
    proof (cases "match_at EOL (c # r)")
      case None
      then have "c \<noteq> LF" by (auto split: if_splits)
      moreover from 1 Cons have "occurrences EOL r = length (filter (\<lambda>c. c = LF) r)" by simp
      ultimately show ?thesis using Cons None by simp
    next
      case (Some n)
      show ?thesis
      proof (cases "c = LF")
        case True
        with Some have "n = 1" by simp
        moreover from 1 Cons have "occurrences EOL r = length (filter (\<lambda>c. c = LF) r)" by simp
        ultimately show ?thesis using Cons Some True by simp
      next
        case False
        with Some obtain r' where r: "r = LF # r'" and c: "c = CR" and n: "n = 2"
          by (cases r) (auto split: if_splits)
        from 1 Cons r have "occurrences EOL r' = length (filter (\<lambda>c. c = LF) r')" by simp
        with Cons Some r c n show ?thesis by simp
      qed
    qed
  qed
qed

lemma EOL_doubled: "occurrences EOL s = 0 \<Longrightarrow> occurrences EOL (s @ s) = 0"
  by (simp add: occurrences_EOL)

section \<open>Facts about the line buffer\<close>

text \<open>The constructor without options gives the default options.\<close>

lemma constructor_options_default:
  "constructor_options
     \<lparr>given_maxBufferSize = None, given_flushLineCount = None, given_transform = None,
      given_progressCallback = False, given_lineDelimiter = None\<rparr> = default_options"
  by (simp add: constructor_options_def default_options_def)

lemma fold_emit:
  "fold (\<lambda>line. emit (Line (f line))) q b = b\<lparr>emitted := emitted b @ map (\<lambda>line. Line (f line)) q\<rparr>"
  by (induction q arbitrary: b) (simp_all add: emit_def)

lemma flush_corked: "corked b \<Longrightarrow> flush opts b = b"
  by (simp add: flush_def)

lemma flush_open:
  "\<not> corked b \<Longrightarrow>
   flush opts b =
     b\<lparr>queue := [], emitted := emitted b @ map (\<lambda>line. Line (apply_transform opts line)) (queue b)\<rparr>"
  by (simp add: flush_def fold_emit)

lemma flush_idle: "queue b = [] \<Longrightarrow> flush opts b = b"
  by (simp add: flush_def)

lemma buffer_flush: "buffer (flush opts b) = buffer b"
  by (simp add: flush_def fold_emit)

lemma fold_write_line_corked:
  "corked b \<Longrightarrow> fold (write_line opts) ls b = b\<lparr>queue := queue b @ ls\<rparr>"
  by (induction ls arbitrary: b) (simp_all add: write_line_def)

lemma fold_write_line_open:
  "\<not> corked b \<Longrightarrow> queue b = [] \<Longrightarrow> \<not> progressCallback opts \<Longrightarrow>
   fold (write_line opts) ls b =
     b\<lparr>lineCount := lineCount b + length ls,
       emitted := emitted b @ map (\<lambda>line. Line (apply_transform opts line)) ls\<rparr>"
proof (induction ls arbitrary: b)
  case Nil
  then show ?case by simp
next
  case (Cons l ls)
  let ?b' = "b\<lparr>lineCount := lineCount b + 1, emitted := emitted b @ [Line (apply_transform opts l)]\<rparr>"
  have step: "write_line opts l b = ?b'"
    using Cons.prems by (simp add: write_line_def Let_def emit_def flush_idle)
  have "fold (write_line opts) ls ?b' =
     ?b'\<lparr>lineCount := lineCount ?b' + length ls,
       emitted := emitted ?b' @ map (\<lambda>line. Line (apply_transform opts line)) ls\<rparr>"
    by (rule Cons.IH) (use Cons.prems in simp_all)
  with step show ?case by simp
qed

lemma write_paused: "paused b \<Longrightarrow> write opts chunk b = (False, b)"
  by (simp add: write_def)

lemma write_corked:
  "corked b \<Longrightarrow> \<not> paused b \<Longrightarrow>
   write opts chunk b =
     (False, b\<lparr>buffer := last (split (lineDelimiter opts) (buffer b @ chunk)),
               queue := queue b @ butlast (split (lineDelimiter opts) (buffer b @ chunk))\<rparr>)"
  by (simp add: write_def Let_def fold_write_line_corked flush_corked)

lemma write_open:
  "\<not> corked b \<Longrightarrow> \<not> paused b \<Longrightarrow> queue b = [] \<Longrightarrow> \<not> progressCallback opts \<Longrightarrow>
   write opts chunk b =
     (True, b\<lparr>buffer := last (split (lineDelimiter opts) (buffer b @ chunk)),
              lineCount := lineCount b + length (butlast (split (lineDelimiter opts) (buffer b @ chunk))),
              emitted := emitted b @
                 map (\<lambda>line. Line (apply_transform opts line))
                   (butlast (split (lineDelimiter opts) (buffer b @ chunk)))\<rparr>)"
  by (simp add: write_def Let_def fold_write_line_open flush_idle)

text \<open>
  A sequence of writes, corked or not, acts on the concatenation of the chunks. The
  pending text of the start holds no delimiter, as after the constructor or any write.
\<close>

lemma writes_corked:
  "corked b \<Longrightarrow> \<not> paused b \<Longrightarrow> split (lineDelimiter opts) (buffer b) = [buffer b] \<Longrightarrow>
   writes opts chunks b =
     b\<lparr>buffer := last (split (lineDelimiter opts) (buffer b @ concat chunks)),
       queue := queue b @ butlast (split (lineDelimiter opts) (buffer b @ concat chunks))\<rparr>"
proof (induction chunks arbitrary: b)
  case Nil
  then show ?case by (simp add: writes_def)
next
  case (Cons c cs)
  let ?d = "lineDelimiter opts"
  let ?b' = "b\<lparr>buffer := last (split ?d (buffer b @ c)), queue := queue b @ butlast (split ?d (buffer b @ c))\<rparr>"
  have w: "snd (write opts c b) = ?b'" using Cons.prems by (simp add: write_corked)
  have "writes opts cs ?b' =
     ?b'\<lparr>buffer := last (split ?d (buffer ?b' @ concat cs)),
       queue := queue ?b' @ butlast (split ?d (buffer ?b' @ concat cs))\<rparr>"
    by (rule Cons.IH) (use Cons.prems in \<open>simp_all add: split_last_piece\<close>)
  moreover have "writes opts (c # cs) b = writes opts cs ?b'"
    using w by (simp add: writes_def)
  ultimately show ?case
    using split_append_last[of ?d "buffer b @ c" "concat cs"]
      split_append_butlast[of ?d "buffer b @ c" "concat cs"]
    by simp
qed

lemma writes_open:
  "\<not> corked b \<Longrightarrow> \<not> paused b \<Longrightarrow> queue b = [] \<Longrightarrow> \<not> progressCallback opts \<Longrightarrow>
   split (lineDelimiter opts) (buffer b) = [buffer b] \<Longrightarrow>
   writes opts chunks b =
     b\<lparr>buffer := last (split (lineDelimiter opts) (buffer b @ concat chunks)),
       lineCount := lineCount b + length (butlast (split (lineDelimiter opts) (buffer b @ concat chunks))),
       emitted := emitted b @
         map (\<lambda>line. Line (apply_transform opts line))
           (butlast (split (lineDelimiter opts) (buffer b @ concat chunks)))\<rparr>"
proof (induction chunks arbitrary: b)
  case Nil
  then show ?case by (simp add: writes_def)
next
  case (Cons c cs)
  let ?d = "lineDelimiter opts"
  let ?L = "split ?d (buffer b @ c)"
  let ?b' = "b\<lparr>buffer := last ?L, lineCount := lineCount b + length (butlast ?L),
       emitted := emitted b @ map (\<lambda>line. Line (apply_transform opts line)) (butlast ?L)\<rparr>"
  have w: "snd (write opts c b) = ?b'" using Cons.prems by (simp add: write_open)
  have "writes opts cs ?b' =
     ?b'\<lparr>buffer := last (split ?d (buffer ?b' @ concat cs)),
       lineCount := lineCount ?b' + length (butlast (split ?d (buffer ?b' @ concat cs))),
       emitted := emitted ?b' @
         map (\<lambda>line. Line (apply_transform opts line)) (butlast (split ?d (buffer ?b' @ concat cs)))\<rparr>"
    by (rule Cons.IH) (use Cons.prems in \<open>simp_all add: split_last_piece\<close>)
  moreover have "writes opts (c # cs) b = writes opts cs ?b'"
    using w by (simp add: writes_def)
  ultimately show ?case
    using split_append_last[of ?d "buffer b @ c" "concat cs"]
      split_append_butlast[of ?d "buffer b @ c" "concat cs"]
    by simp
qed

text \<open>Corking a new buffer, writing chunks and uncorking, for all options and chunks.\<close>

lemma cork_writes_uncork:
  "emitted (uncork opts (writes opts chunks (cork fresh))) =
     map (\<lambda>line. Line (apply_transform opts line)) (butlast (split (lineDelimiter opts) (concat chunks)))
       @ [Drain]
   \<and> lineCount (uncork opts (writes opts chunks (cork fresh))) = 0
   \<and> queue (uncork opts (writes opts chunks (cork fresh))) = []
   \<and> buffer (uncork opts (writes opts chunks (cork fresh))) =
       last (split (lineDelimiter opts) (concat chunks))"
proof -
  have "writes opts chunks (cork fresh) =
      (cork fresh)\<lparr>buffer := last (split (lineDelimiter opts) (buffer (cork fresh) @ concat chunks)),
        queue := queue (cork fresh) @
          butlast (split (lineDelimiter opts) (buffer (cork fresh) @ concat chunks))\<rparr>"
    by (rule writes_corked) (simp_all add: cork_def fresh_def split_Nil)
  then show ?thesis
    by (simp add: uncork_def emit_def flush_open cork_def fresh_def)
qed

text \<open>Two ways of cutting one text into chunks leave a new buffer in the same state.\<close>

lemma writes_same_concat:
  assumes "concat chunks = concat chunks'"
  shows "writes default_options chunks fresh = writes default_options chunks' fresh"
proof -
  have "writes default_options cs fresh =
     fresh\<lparr>buffer := last (split (lineDelimiter default_options) (buffer fresh @ concat cs)),
       lineCount := lineCount fresh
         + length (butlast (split (lineDelimiter default_options) (buffer fresh @ concat cs))),
       emitted := emitted fresh @
         map (\<lambda>line. Line (apply_transform default_options line))
           (butlast (split (lineDelimiter default_options) (buffer fresh @ concat cs)))\<rparr>"
    for cs
    by (rule writes_open) (simp_all add: fresh_def default_options_def split_Nil)
  from this[of chunks] this[of chunks'] assms show ?thesis by simp
qed

section \<open>Claims about the line buffer\<close>

text \<open>
  C1. The claim says that every flush, also the one that \<^verbatim>\<open>write\<close> performs when the
  pending text is longer than \<^verbatim>\<open>maxBufferSize\<close>, emits the queued lines and empties the
  queue, even while the buffer is corked. \<^verbatim>\<open>_flush\<close> is guarded by \<^verbatim>\<open>!this.corked\<close>.
  What holds: a flush of a buffer that is not corked empties the queue and emits every
  queued line, through the transform, in queue order; \<^verbatim>\<open>uncork\<close> does so and then
  emits \<^verbatim>\<open>drain\<close>; a flush of a corked buffer changes nothing, and a write to a corked
  buffer emits nothing and only appends the new complete lines to the queue, whatever the
  length of the pending text.
\<close>

theorem flush_releases_queue:
  "(\<not> corked b \<longrightarrow>
      queue (flush opts b) = [] \<and>
      emitted (flush opts b) = emitted b @ map (\<lambda>line. Line (apply_transform opts line)) (queue b))
   \<and> (corked b \<longrightarrow> flush opts b = b)
   \<and> queue (uncork opts b) = []
   \<and> emitted (uncork opts b) =
       emitted b @ map (\<lambda>line. Line (apply_transform opts line)) (queue b) @ [Drain]
   \<and> (corked b \<and> \<not> paused b \<longrightarrow>
       emitted (snd (write opts chunk b)) = emitted b \<and>
       queue (snd (write opts chunk b)) =
         queue b @ butlast (split (lineDelimiter opts) (buffer b @ chunk)))"
  by (simp add: flush_open flush_corked uncork_def emit_def write_corked)

theorem flush_releases_queue_witness:
  "\<not> corked (fresh\<lparr>queue := [''a'', ''b'']\<rparr>)
   \<and> queue (flush default_options (fresh\<lparr>queue := [''a'', ''b'']\<rparr>)) = []
   \<and> emitted (flush default_options (fresh\<lparr>queue := [''a'', ''b'']\<rparr>)) = [Line ''a'', Line ''b'']
   \<and> corked (cork fresh) \<and> \<not> paused (cork fresh)
   \<and> flush default_options (cork fresh) = cork fresh
   \<and> emitted (snd (write default_options ''a\<newline>b'' (cork fresh))) = []
   \<and> queue (snd (write default_options ''a\<newline>b'' (cork fresh))) = [''a'']"
  using flush_releases_queue[of "fresh\<lparr>queue := [''a'', ''b'']\<rparr>" default_options]
    flush_releases_queue[of "cork fresh" default_options "''a\<newline>b''"]
  by (simp add: fresh_def cork_def default_options_def apply_transform_def split_def)

text \<open>
  Against C1 as stated: with \<^verbatim>\<open>maxBufferSize\<close> 1, a corked buffer that is written
  \<^verbatim>\<open>"a\nbcd"\<close> has a pending text of length 3, so that \<^verbatim>\<open>write\<close> calls \<^verbatim>\<open>_flush\<close>,
  and the line stays in the queue and nothing is emitted.
\<close>

theorem flush_corked_counterexample:
  "maxBufferSize (default_options\<lparr>maxBufferSize := 1\<rparr>)
     < length (buffer (snd (write (default_options\<lparr>maxBufferSize := 1\<rparr>) ''a\<newline>bcd'' (cork fresh))))
   \<and> queue (snd (write (default_options\<lparr>maxBufferSize := 1\<rparr>) ''a\<newline>bcd'' (cork fresh))) = [''a'']
   \<and> emitted (snd (write (default_options\<lparr>maxBufferSize := 1\<rparr>) ''a\<newline>bcd'' (cork fresh))) = []"
  by (simp add: write_def Let_def split_def fresh_def cork_def default_options_def write_line_def
      flush_def)

text \<open>
  C2. The claim says that after \<^verbatim>\<open>cork\<close>, writes that hold \<open>n\<close> complete lines, and
  \<^verbatim>\<open>uncork\<close>, the \<open>n\<close> lines have been emitted in order and \<^verbatim>\<open>lineCount\<close> is \<open>n\<close>.
  The lines are emitted in order (\<open>cork_writes_uncork\<close>), but \<^verbatim>\<open>_flush\<close> does not count
  the lines it emits, as \<^verbatim>\<open>write\<close> does for the lines it emits itself: for the chunks
  \<^verbatim>\<open>"a\nb"\<close> and \<^verbatim>\<open>"\n"\<close>, with two complete lines, the count stays 0.
\<close>

theorem uncork_lineCount_stays:
  "emitted (uncork default_options (writes default_options [''a\<newline>b'', ''\<newline>''] (cork fresh)))
     = [Line ''a'', Line ''b'', Drain]
   \<and> lineCount (uncork default_options (writes default_options [''a\<newline>b'', ''\<newline>''] (cork fresh)))
     = 0"
  by (simp add: cork_writes_uncork default_options_def apply_transform_def split_def)

text \<open>
  C3. For every sequence of chunks written to a new buffer with the default options,
  the events emitted are the complete lines of the concatenation of the chunks, in order,
  one for each occurrence of the delimiter in the concatenation; the pending text is the
  last piece. So the lines depend on the concatenation only, not on where it is cut into
  chunks.
\<close>

theorem chunk_boundary_independent:
  "emitted (writes default_options chunks fresh) = map Line (butlast (split EOL (concat chunks)))
   \<and> length (emitted (writes default_options chunks fresh)) = occurrences EOL (concat chunks)
   \<and> lineCount (writes default_options chunks fresh) = occurrences EOL (concat chunks)
   \<and> buffer (writes default_options chunks fresh) = last (split EOL (concat chunks))"
proof -
  have "writes default_options chunks fresh =
     fresh\<lparr>buffer := last (split (lineDelimiter default_options) (buffer fresh @ concat chunks)),
       lineCount := lineCount fresh
         + length (butlast (split (lineDelimiter default_options) (buffer fresh @ concat chunks))),
       emitted := emitted fresh @
         map (\<lambda>line. Line (apply_transform default_options line))
           (butlast (split (lineDelimiter default_options) (buffer fresh @ concat chunks)))\<rparr>"
    by (rule writes_open) (simp_all add: fresh_def default_options_def split_Nil)
  then show ?thesis
    by (simp add: fresh_def default_options_def apply_transform_def length_split)
qed

text \<open>
  C4. The claim says that \<^verbatim>\<open>resume\<close>, on a pending text that is not empty and holds no
  delimiter, leaves the pending text doubled. This holds when the doubled text holds no
  delimiter either, which is always so for the default delimiter; the doubled text is
  then emitted as a line by \<^verbatim>\<open>end\<close>.
\<close>

theorem resume_doubles_pending:
  assumes "buffer b \<noteq> []"
    and "occurrences (lineDelimiter opts) (buffer b) = 0"
    and "lineDelimiter opts = EOL \<or> occurrences (lineDelimiter opts) (buffer b @ buffer b) = 0"
  shows "buffer (resume opts b) = buffer b @ buffer b
    \<and> Line (buffer b @ buffer b) \<in> set (emitted (end_call callback (resume opts b)))"
proof -
  have "occurrences (lineDelimiter opts) (buffer b @ buffer b) = 0"
    using assms(2,3) EOL_doubled by auto
  then have s: "split (lineDelimiter opts) (buffer b @ buffer b) = [buffer b @ buffer b]"
    by (rule split_no_occurrence)
  have "buffer (snd (write opts (buffer b) (b\<lparr>paused := False\<rparr>))) = buffer b @ buffer b"
    using s by (simp add: write_def Let_def buffer_flush)
  then have r: "buffer (resume opts b) = buffer b @ buffer b"
    using assms(1) by (simp add: resume_def Let_def buffer_flush)
  then show ?thesis
    using assms(1) by (simp add: end_call_def Let_def emit_def)
qed

theorem resume_doubles_pending_witness:
  "buffer (snd (write default_options ''ab'' fresh)) \<noteq> []
   \<and> occurrences EOL (buffer (snd (write default_options ''ab'' fresh))) = 0
   \<and> buffer (resume default_options (pause (snd (write default_options ''ab'' fresh)))) = ''abab''
   \<and> Line ''abab'' \<in> set (emitted (end_call False (resume default_options (pause (snd (write default_options ''ab'' fresh))))))"
proof -
  let ?b = "pause (snd (write default_options ''ab'' fresh))"
  have b: "buffer ?b = ''ab''"
    by (simp add: write_def Let_def split_def fresh_def default_options_def pause_def flush_def)
  have 1: "buffer ?b \<noteq> []" using b by simp
  have 2: "occurrences (lineDelimiter default_options) (buffer ?b) = 0"
    using b by (simp add: default_options_def)
  have 3: "lineDelimiter default_options = EOL
     \<or> occurrences (lineDelimiter default_options) (buffer ?b @ buffer ?b) = 0"
    by (simp add: default_options_def)
  from resume_doubles_pending[OF 1 2 3, of False] b show ?thesis
    by (simp add: pause_def)
qed

text \<open>
  Against C4 as stated: with the delimiter \<^verbatim>\<open>"ba"\<close> the pending text \<^verbatim>\<open>"ab"\<close> holds
  no delimiter, its doubling \<^verbatim>\<open>"abab"\<close> holds one, and \<^verbatim>\<open>resume\<close> leaves the
  pending text \<^verbatim>\<open>"b"\<close>.
\<close>

theorem resume_splits_counterexample:
  "occurrences (Literal CHR ''b'' ''a'') ''ab'' = 0
   \<and> buffer (pause (snd (write (default_options\<lparr>lineDelimiter := Literal CHR ''b'' ''a''\<rparr>) ''ab'' fresh))) = ''ab''
   \<and> buffer (resume (default_options\<lparr>lineDelimiter := Literal CHR ''b'' ''a''\<rparr>)
        (pause (snd (write (default_options\<lparr>lineDelimiter := Literal CHR ''b'' ''a''\<rparr>) ''ab'' fresh))))
      = ''b''"
  by (simp add: write_def Let_def split_def fresh_def default_options_def pause_def flush_def
      resume_def write_line_def emit_def apply_transform_def)

text \<open>
  C9. A write to a paused buffer returns \<^verbatim>\<open>false\<close> and leaves the state as it is,
  the events emitted included. So the state after writing \<open>A\<close>, pausing, writing \<open>B\<close>,
  resuming and writing \<open>C\<close> is the state of the same calls without the write of \<open>B\<close>:
  no emitted line depends on \<open>B\<close>.
\<close>

theorem paused_write_dropped:
  "write opts B (pause b) = (False, pause b)
   \<and> snd (write opts C (resume opts (snd (write opts B (pause (snd (write opts A b)))))))
     = snd (write opts C (resume opts (pause (snd (write opts A b)))))"
  by (simp add: write_def pause_def)

text \<open>
  C10. On a corked buffer with a queue that is not empty, \<^verbatim>\<open>end\<close> leaves the queue as
  it is and the buffer corked; it emits the pending text as a line when there is one,
  then \<^verbatim>\<open>done\<close>, and no queued line.
\<close>

theorem end_keeps_queue:
  assumes "corked b" and "queue b \<noteq> []"
  shows "queue (end_call callback b) = queue b
    \<and> queue (end_call callback b) \<noteq> []
    \<and> corked (end_call callback b)
    \<and> emitted (end_call callback b) =
        emitted b @ (if buffer b = [] then [] else [Line (buffer b)]) @ [Done]
          @ (if callback then [EndCallback] else [])"
  using assms by (simp add: end_call_def Let_def emit_def)

theorem end_keeps_queue_witness:
  "corked (snd (write default_options ''a\<newline>b'' (cork fresh)))
   \<and> queue (snd (write default_options ''a\<newline>b'' (cork fresh))) = [''a'']
   \<and> queue (end_call False (snd (write default_options ''a\<newline>b'' (cork fresh)))) = [''a'']
   \<and> emitted (end_call False (snd (write default_options ''a\<newline>b'' (cork fresh)))) = [Line ''b'', Done]"
proof -
  let ?b = "snd (write default_options ''a\<newline>b'' (cork fresh))"
  have b: "?b = \<lparr>buffer = ''b'', queue = [''a''], lineCount = 0, corked = True, paused = False, emitted = []\<rparr>"
    by (simp add: write_def Let_def split_def fresh_def default_options_def cork_def flush_def
        write_line_def)
  have 1: "corked ?b" using b by simp
  have 2: "queue ?b \<noteq> []" using b by simp
  from end_keeps_queue[OF 1 2, of False] b show ?thesis by simp
qed

section \<open>Facts about the reader\<close>

lemma first_valid_Nil: "first_valid dayjs datum [] = None"
  by (simp add: first_valid_def)

lemma fold_keeps_Some:
  "fold (\<lambda>currentDateFormat matchingDate.
           case matchingDate of Some d \<Rightarrow> Some d | None \<Rightarrow> dayjs datum currentDateFormat)
        fs (Some d) = Some d"
  by (induction fs) simp_all

lemma first_valid_Cons:
  "first_valid dayjs datum (f # fs) =
     (case dayjs datum f of Some d \<Rightarrow> Some d | None \<Rightarrow> first_valid dayjs datum fs)"
  by (cases "dayjs datum f") (simp_all add: first_valid_def fold_keeps_Some)

lemma first_valid_None:
  "(\<And>f. f \<in> set fs \<Longrightarrow> dayjs datum f = None) \<Longrightarrow> first_valid dayjs datum fs = None"
  by (induction fs) (simp_all add: first_valid_Nil first_valid_Cons)

text \<open>When \<open>defaultMap\<close> gives a number: the guard of the code, for every \<open>toNumber\<close>.\<close>

lemma defaultMap_numeric:
  "(\<exists>n. defaultMap toNumber dayjs dateFormats datum = Num n) \<longleftrightarrow>
     datum \<noteq> [] \<and> toNumber datum \<noteq> NaN \<and> toNumber datum \<noteq> PosInfinity"
proof -
  have special: "v \<noteq> Num n" if "SpecialValues datum = Some v" for v n
  proof (cases "map_of SpecialValues_own datum")
    case None
    with that show ?thesis by (auto simp: SpecialValues_def split: if_splits)
  next
    case (Some w)
    then have "(datum, w) \<in> set SpecialValues_own" by (rule map_of_SomeD)
    then have "w \<noteq> Num n" by (auto simp: SpecialValues_own_def)
    with Some that show ?thesis by (simp add: SpecialValues_def)
  qed
  show ?thesis
    by (auto simp: defaultMap_def Let_def split: option.splits dest: special)
qed

lemma round_number_small: "\<bar>q\<bar> < 2 ^ 64 \<Longrightarrow> round_number q = Finite q"
proof -
  assume a: "\<bar>q\<bar> < 2 ^ 64"
  have b: "(2::rat) ^ 64 \<le> 2 ^ 1024 - 2 ^ 970" by simp
  from a b have "\<not> 2 ^ 1024 - 2 ^ 970 \<le> q" and "\<not> q \<le> - (2 ^ 1024 - 2 ^ 970)"
    by linarith+
  then show ?thesis unfolding round_number_def by (simp only: if_False)
qed

text \<open>What \<open>streamFile\<close> hands to the sink, from any state with a batch that is not full.\<close>

lemma stream_events_source:
  "length acc < batchSize \<Longrightarrow>
   fst (stream_events (source rows) (acc, calls)) = Some (Inr ())
   \<and> concat (snd (stream_events (source rows) (acc, calls))) = concat calls @ acc @ rows
   \<and> map length (snd (stream_events (source rows) (acc, calls))) =
       map length calls @ replicate ((length acc + length rows) div batchSize) batchSize
         @ (if (length acc + length rows) mod batchSize = 0 then []
            else [(length acc + length rows) mod batchSize])"
proof (induction rows arbitrary: acc calls)
  case Nil
  then show ?case by (simp add: source_def)
next
  case (Cons r rows)
  show ?case
  proof (cases "batchSize \<le> length (acc @ [r])")
    case True
    with Cons.prems have full: "length acc + 1 = batchSize" by simp
    have step: "stream_events (source (r # rows)) (acc, calls)
        = stream_events (source rows) ([], calls @ [acc @ [r]])"
      using True by (simp add: source_def on_data_def Let_def)
    have pos: "length ([] :: string list list) < batchSize" using full by simp
    have d: "(length acc + length (r # rows)) div batchSize = Suc (length rows div batchSize)"
      and m: "(length acc + length (r # rows)) mod batchSize = length rows mod batchSize"
    proof -
      have e: "length acc + length (r # rows) = batchSize + length rows" using full by simp
      have "0 < batchSize" by (simp add: batchSize_def)
      then show "(length acc + length (r # rows)) div batchSize = Suc (length rows div batchSize)"
        unfolding e by simp
      show "(length acc + length (r # rows)) mod batchSize = length rows mod batchSize"
        unfolding e by simp
    qed
    show ?thesis
      unfolding step d m
      using Cons.IH[OF pos, of "calls @ [acc @ [r]]"] full
      by (simp add: replicate_append_same)
  next
    case False
    then have less: "length (acc @ [r]) < batchSize" by simp
    have step: "stream_events (source (r # rows)) (acc, calls)
        = stream_events (source rows) (acc @ [r], calls)"
      using False by (simp add: source_def on_data_def Let_def)
    show ?thesis
      unfolding step using Cons.IH[OF less, of calls] by simp
  qed
qed

lemma stream_events_no_empty:
  "[] \<notin> set (snd st) \<Longrightarrow> [] \<notin> set (snd (stream_events events st))"
proof (induction events arbitrary: st)
  case Nil
  then show ?case by simp
next
  case (Cons e events)
  show ?case
  proof (cases e)
    case (Data row)
    have "[] \<notin> set (snd (on_data row st))"
      using Cons.prems by (simp add: on_data_def Let_def)
    then have "[] \<notin> set (snd (stream_events events (on_data row st)))"
      by (rule Cons.IH)
    with Data show ?thesis by simp
  next
    case End
    with Cons.prems show ?thesis by auto
  next
    case (Failure msg)
    with Cons.prems show ?thesis by simp
  qed
qed

text \<open>\<^verbatim>\<open>readFile\<close> on a missing file, on a read that resolves and on one that rejects.\<close>

lemma readFile_missing:
  "\<not> exists filename \<Longrightarrow>
   readFile exists parse mapper sheetName filename = (Some (Inl (FileNotFound filename)), [])"
  by (simp add: readFile_def)

lemma readFile_resolved:
  "exists filename \<Longrightarrow> read mapper sheetName (parse filename) = Some (Inr worksheets) \<Longrightarrow>
   readFile exists parse mapper sheetName filename =
     (Some (Inr worksheets), [CreateReadStream filename, StreamClose filename])"
  by (simp add: readFile_def)

lemma readFile_rejected:
  "exists filename \<Longrightarrow> read mapper sheetName (parse filename) = Some (Inl e) \<Longrightarrow>
   readFile exists parse mapper sheetName filename =
     (Some (Inl (Rejected e)), [CreateReadStream filename])"
  by (simp add: readFile_def)

section \<open>Claims about the reader\<close>

text \<open>
  C5. The claim says that a token that parses as an infinite value, positive or negative,
  is never mapped to a number. The guard of \<^verbatim>\<open>defaultMap\<close> excludes \<^verbatim>\<open>NaN\<close> and
  \<^verbatim>\<open>Infinity\<close> only (\<open>defaultMap_numeric\<close>): the token \<^verbatim>\<open>"-Infinity"\<close> is mapped to
  the number \<^verbatim>\<open>-Infinity\<close>.
\<close>

theorem defaultMap_negative_infinity:
  "js_Number ''-Infinity'' = NegInfinity
   \<and> defaultMap js_Number (dayjs_strict 0) default_dateFormats ''-Infinity'' = Num NegInfinity"
  by (simp add: defaultMap_def js_Number_def trim_def is_space_def radix_literal_def Let_def)

text \<open>
  C6. The eight examples of the default mapping. What \<^verbatim>\<open>Number\<close> and the strict parse
  give on the tokens is assumed: \<^verbatim>\<open>"42"\<close> and \<^verbatim>\<open>"3.14"\<close> are the numbers they
  denote, the other tokens are not numbers, \<^verbatim>\<open>"2024-01-15"\<close> is valid for the format
  \<^verbatim>\<open>YYYY-MM-DD\<close> alone, with the time value \<open>january15\<close>, and the last four tokens are
  valid for no default format.
\<close>

theorem defaultMap_examples:
  assumes "toNumber ''42'' = Finite 42"
    and "toNumber ''3.14'' = Finite (314 / 100)"
    and "\<forall>datum \<in> {''2024-01-15'', ''true'', ''#DIV/0!'', ''hello'', ''12abc''}. toNumber datum = NaN"
    and "dayjs ''2024-01-15'' ''YYYY-MM-DD[T]HH:mm:ssZ'' = None"
    and "dayjs ''2024-01-15'' ''YYYY-MM-DD[T]HH:mm:ss'' = None"
    and "dayjs ''2024-01-15'' ''MM-DD-YYYY'' = None"
    and "dayjs ''2024-01-15'' ''YYYY-MM-DD'' = Some january15"
    and "\<forall>datum \<in> {''true'', ''#DIV/0!'', ''hello'', ''12abc''}.
           \<forall>format \<in> set default_dateFormats. dayjs datum format = None"
  shows "defaultMap toNumber dayjs default_dateFormats '''' = Null
    \<and> defaultMap toNumber dayjs default_dateFormats ''42'' = Num (Finite 42)
    \<and> defaultMap toNumber dayjs default_dateFormats ''3.14'' = Num (Finite (314 / 100))
    \<and> defaultMap toNumber dayjs default_dateFormats ''2024-01-15'' = DateValue january15
    \<and> defaultMap toNumber dayjs default_dateFormats ''true'' = Boolean True
    \<and> defaultMap toNumber dayjs default_dateFormats ''#DIV/0!'' = ErrorValue ''#DIV/0!''
    \<and> defaultMap toNumber dayjs default_dateFormats ''hello'' = Text ''hello''
    \<and> defaultMap toNumber dayjs default_dateFormats ''12abc'' = Text ''12abc''"
proof -
  have none: "first_valid dayjs datum default_dateFormats = None"
    if "datum \<in> {''true'', ''#DIV/0!'', ''hello'', ''12abc''}" for datum
  proof (rule first_valid_None)
    fix f assume f: "f \<in> set default_dateFormats"
    from assms(8) that have "\<forall>format \<in> set default_dateFormats. dayjs datum format = None"
      by (rule bspec)
    then show "dayjs datum f = None" using f by (rule bspec)
  qed
  have date: "first_valid dayjs ''2024-01-15'' default_dateFormats = Some january15"
    using assms(4-7) by (simp add: default_dateFormats_def first_valid_Cons)
  have 1: "defaultMap toNumber dayjs default_dateFormats '''' = Null"
    by (simp add: defaultMap_def)
  have 2: "defaultMap toNumber dayjs default_dateFormats ''42'' = Num (Finite 42)"
    using assms(1) by (simp add: defaultMap_def)
  have 3: "defaultMap toNumber dayjs default_dateFormats ''3.14'' = Num (Finite (314 / 100))"
    using assms(2) by (simp add: defaultMap_def)
  have 4: "defaultMap toNumber dayjs default_dateFormats ''2024-01-15'' = DateValue january15"
    using assms(3) date by (simp add: defaultMap_def)
  have 5: "defaultMap toNumber dayjs default_dateFormats ''true'' = Boolean True"
    using assms(3) none[of "''true''"]
    by (simp add: defaultMap_def SpecialValues_def SpecialValues_own_def)
  have 6: "defaultMap toNumber dayjs default_dateFormats ''#DIV/0!'' = ErrorValue ''#DIV/0!''"
    using assms(3) none[of "''#DIV/0!''"]
    by (simp add: defaultMap_def SpecialValues_def SpecialValues_own_def)
  have 7: "defaultMap toNumber dayjs default_dateFormats ''hello'' = Text ''hello''"
    using assms(3) none[of "''hello''"]
    by (simp add: defaultMap_def SpecialValues_def SpecialValues_own_def Object_prototype_def)
  have 8: "defaultMap toNumber dayjs default_dateFormats ''12abc'' = Text ''12abc''"
    using assms(3) none[of "''12abc''"]
    by (simp add: defaultMap_def SpecialValues_def SpecialValues_own_def Object_prototype_def)
  from 1 2 3 4 5 6 7 8 show ?thesis by blast
qed

text \<open>
  The assumptions hold for the reference readings, in a local zone without offset, where
  the time value of 15 January 2024 is 1705276800000.
\<close>

theorem defaultMap_examples_witness:
  "defaultMap js_Number (dayjs_strict 0) default_dateFormats '''' = Null
    \<and> defaultMap js_Number (dayjs_strict 0) default_dateFormats ''42'' = Num (Finite 42)
    \<and> defaultMap js_Number (dayjs_strict 0) default_dateFormats ''3.14'' = Num (Finite (314 / 100))
    \<and> defaultMap js_Number (dayjs_strict 0) default_dateFormats ''2024-01-15'' = DateValue 1705276800000
    \<and> defaultMap js_Number (dayjs_strict 0) default_dateFormats ''true'' = Boolean True
    \<and> defaultMap js_Number (dayjs_strict 0) default_dateFormats ''#DIV/0!'' = ErrorValue ''#DIV/0!''
    \<and> defaultMap js_Number (dayjs_strict 0) default_dateFormats ''hello'' = Text ''hello''
    \<and> defaultMap js_Number (dayjs_strict 0) default_dateFormats ''12abc'' = Text ''12abc''"
proof -
  have 1: "js_Number ''42'' = Finite 42"
    by (simp add: js_Number_def trim_def is_space_def radix_literal_def unsigned_decimal_def
        exponent_part_def digits_value_def is_digit_def round_number_small Let_def)
  have 2: "js_Number ''3.14'' = Finite (314 / 100)"
    by (simp add: js_Number_def trim_def is_space_def radix_literal_def unsigned_decimal_def
        exponent_part_def digits_value_def is_digit_def round_number_small Let_def)
  have 3: "\<forall>datum \<in> {''2024-01-15'', ''true'', ''#DIV/0!'', ''hello'', ''12abc''}. js_Number datum = NaN"
    by code_simp
  have 4: "dayjs_strict 0 ''2024-01-15'' ''YYYY-MM-DD[T]HH:mm:ssZ'' = None"
    by code_simp
  have 5: "dayjs_strict 0 ''2024-01-15'' ''YYYY-MM-DD[T]HH:mm:ss'' = None"
    by code_simp
  have 6: "dayjs_strict 0 ''2024-01-15'' ''MM-DD-YYYY'' = None"
    by code_simp
  have 7: "dayjs_strict 0 ''2024-01-15'' ''YYYY-MM-DD'' = Some 1705276800000"
    by code_simp
  have 8: "\<forall>datum \<in> {''true'', ''#DIV/0!'', ''hello'', ''12abc''}.
           \<forall>format \<in> set default_dateFormats. dayjs_strict 0 datum format = None"
    by code_simp
  show ?thesis
    by (rule defaultMap_examples[OF 1 2 3 4 5 6 7 8])
qed

text \<open>
  C7. The claim says that \<^verbatim>\<open>readFile\<close> closes the stream when the read has resolved
  and when it has rejected. The call of \<^verbatim>\<open>stream.close()\<close> follows the \<^verbatim>\<open>await\<close> of
  the read, with no \<^verbatim>\<open>finally\<close>: for a file that exists and a parser that fails after
  one record, the stream is created and not closed.
\<close>

theorem readFile_failure_leaves_stream_open:
  "readFile (\<lambda>filename. True) (\<lambda>filename. [Data [''a'', ''1''], Failure ''Parse Error''])
      (\<lambda>datum. Text datum) None ''book.csv''
    = (Some (Inl (Rejected ''Parse Error'')), [CreateReadStream ''book.csv''])"
  by (simp add: readFile_def read_def)

text \<open>
  C8. For a source that produces its rows and ends, \<^verbatim>\<open>streamFile\<close> resolves, the
  batches given to the sink are the rows in order, each batch has 1000 rows but for a
  last one with the rest when there is a rest, and 2500 rows give batches of 1000, 1000
  and 500 rows. No batch is empty, whatever events the parser gives.
\<close>

theorem streamFile_batches:
  "fst (streamFile (source rows)) = Some (Inr ())
   \<and> concat (snd (streamFile (source rows))) = rows
   \<and> map length (snd (streamFile (source rows))) =
       replicate (length rows div batchSize) batchSize
         @ (if length rows mod batchSize = 0 then [] else [length rows mod batchSize])
   \<and> [] \<notin> set (snd (streamFile events))
   \<and> (length rows = 2500 \<longrightarrow> map length (snd (streamFile (source rows))) = [1000, 1000, 500])"
proof -
  have b: "length ([] :: string list list) < batchSize" by (simp add: batchSize_def)
  note main = stream_events_source[OF b, of rows "[]"]
  have lens: "map length (snd (streamFile (source rows))) =
       replicate (length rows div batchSize) batchSize
         @ (if length rows mod batchSize = 0 then [] else [length rows mod batchSize])"
    using main by (simp add: streamFile_def)
  have nonempty: "[] \<notin> set (snd (streamFile events))"
    unfolding streamFile_def by (rule stream_events_no_empty) simp
  have special: "length rows = 2500 \<longrightarrow> map length (snd (streamFile (source rows))) = [1000, 1000, 500]"
  proof
    assume n: "length rows = 2500"
    have "replicate (2500 div 1000) (1000 :: nat) = [1000, 1000]"
      by (simp add: numeral_2_eq_2)
    then show "map length (snd (streamFile (source rows))) = [1000, 1000, 500]"
      unfolding lens n by (simp add: batchSize_def)
  qed
  have settled: "fst (streamFile (source rows)) = Some (Inr ())"
    using main by (simp add: streamFile_def)
  have all: "concat (snd (streamFile (source rows))) = rows"
    using main by (simp add: streamFile_def)
  from settled all lens nonempty special show ?thesis
    by (intro conjI)
qed

theorem streamFile_batches_witness:
  "length (replicate 2500 ([] :: string list)) = 2500
   \<and> map length (snd (streamFile (source (replicate 2500 [])))) = [1000, 1000, 500]
   \<and> [] \<notin> set (snd (streamFile (source (replicate 2500 []))))"
proof -
  have l: "length (replicate 2500 ([] :: string list)) = 2500" by simp
  from streamFile_batches[of "replicate 2500 []" "source (replicate 2500 [])"] l show ?thesis by blast
qed

end
